theory Spec2Isabelle
  imports Main "HOL-Library.Sublist"
begin

section \<open>Go strings and the standard-library functions the code calls\<close>

text \<open>
  A Go string is a sequence of bytes, here a \<open>string\<close> (a \<open>char list\<close>).
  A Go \<open>error\<close> value is \<open>error option\<close>, with \<open>None\<close> for \<open>nil\<close>.
\<close>

datatype error = Errorf string

text \<open>\<open>strings.Join(elems, sep)\<close>.\<close>

fun Join :: "string list \<Rightarrow> string \<Rightarrow> string" where
  "Join [] sep = []"
| "Join [x] sep = x"
| "Join (x # y # ys) sep = x @ sep @ Join (y # ys) sep"

text \<open>
  \<open>strings.Index(s, substr)\<close>: the byte offset of the first occurrence of \<open>substr\<close> in
  \<open>s\<close>, and \<open>-1\<close> when there is none.
\<close>

fun Index :: "string \<Rightarrow> string \<Rightarrow> int" where
  "Index [] substr = (if substr = [] then 0 else - 1)"
| "Index (c # cs) substr =
     (if prefix substr (c # cs) then 0
      else (let i = Index cs substr in if i < 0 then - 1 else i + 1))"

text \<open>
  \<open>strings.ToLower\<close> on the ASCII letters: \<open>A\<close>..\<open>Z\<close> go to \<open>a\<close>..\<open>z\<close>, every other byte
  stays. (Go also lowers letters beyond ASCII; the theorems below apply \<open>ToLower\<close> to ASCII
  text only.)
\<close>

definition toLower_byte :: "char \<Rightarrow> char" where
  "toLower_byte c =
     (case map_of (zip ''ABCDEFGHIJKLMNOPQRSTUVWXYZ'' ''abcdefghijklmnopqrstuvwxyz'') c of
        Some l \<Rightarrow> l
      | None \<Rightarrow> c)"

definition ToLower :: "string \<Rightarrow> string" where
  "ToLower s = map toLower_byte s"

text \<open>
  \<open>strconv.Atoi\<close> with a 64-bit \<open>int\<close>: an optional sign, then at least one decimal digit
  and nothing else, and a value that fits; \<open>None\<close> is the conversion error.
\<close>

definition digit_val :: "char \<Rightarrow> nat option" where
  "digit_val c = map_of (zip ''0123456789'' [0, 1, 2, 3, 4, 5, 6, 7, 8, 9]) c"

fun parse_digits :: "nat \<Rightarrow> string \<Rightarrow> nat option" where
  "parse_digits n [] = Some n"
| "parse_digits n (c # cs) =
     (case digit_val c of None \<Rightarrow> None | Some v \<Rightarrow> parse_digits (n * 10 + v) cs)"

definition Atoi :: "string \<Rightarrow> int option" where
  "Atoi s =
     (case s of
        [] \<Rightarrow> None
      | c # cs \<Rightarrow>
          (let neg = (c = CHR ''-'');
               ds = (if c = CHR ''-'' \<or> c = CHR ''+'' then cs else s)
           in if ds = [] then None
              else (case parse_digits 0 ds of
                      None \<Rightarrow> None
                    | Some n \<Rightarrow>
                        (let v = (if neg then - int n else int n)
                         in if - 9223372036854775808 \<le> v \<and> v \<le> 9223372036854775807
                            then Some v else None))))"

text \<open>\<open>strconv.Itoa\<close>: the decimal digits of an integer, with a minus sign when negative.\<close>

fun digits :: "nat \<Rightarrow> string" where
  "digits n =
     (if n < 10 then [''0123456789'' ! n]
      else digits (n div 10) @ [''0123456789'' ! (n mod 10)])"

declare digits.simps [simp del]

definition Itoa :: "int \<Rightarrow> string" where
  "Itoa i = (if i < 0 then CHR ''-'' # digits (nat (- i)) else digits (nat i))"


section \<open>Package qualys: the data model\<close>

text \<open>
  The struct declarations are in files of the package that are not part of this
  development; the records hold the fields the code reads and writes. \<open>QDetection\<close> has the
  Go fields \<open>QID\<close>, \<open>Status\<close> and \<open>Proof\<close> (here \<open>DetectionStatus\<close> and \<open>DetectionProof\<close>),
  \<open>QHost\<close> the Go fields \<open>HostID\<close>, \<open>IPAddress\<close> and \<open>Detections\<close> (here \<open>HostDetections\<close>):
  the shorter names are those of the methods \<open>Status\<close> and \<open>Detections\<close> below.
\<close>

record QDetection =
  QID :: int
  DetectionStatus :: string
  DetectionProof :: string

record QHost =
  HostID :: int
  IPAddress :: string
  HostDetections :: "QDetection list"

record QWarning =
  URL :: string

text \<open>One page of the host detection API: \<open>Warning\<close> is a pointer, \<open>None\<close> when nil.\<close>

record QHostListDetectionOutput =
  Hosts :: "QHost list"
  Warning :: "QWarning option"

text \<open>The request fields, a Go \<open>map[string]string\<close>.\<close>

type_synonym fields = "string \<rightharpoonup> string"

record request =
  req_path :: string
  req_fields :: fields

text \<open>
  A session: \<open>post\<close> is the network call \<open>session.post(path, fields, &output)\<close>, which gives
  the decoded page and the error; \<open>Address\<close> is \<open>session.Config.Address()\<close>. The package
  constant \<open>qsAssetVMHost\<close> is declared in such a file too and is carried here.
\<close>

record Session =
  post :: "string \<Rightarrow> fields \<Rightarrow> QHostListDetectionOutput \<times> error option"
  Address :: string
  qsAssetVMHost :: string

record WebAppFinding =
  Qid :: string
  StatusVal :: string
  Type :: string


section \<open>Package domain: the canonical statuses\<close>

text \<open>
  \<open>domain.Vulnerable\<close>, \<open>domain.Fixed\<close>, \<open>domain.Informational\<close> and \<open>domain.DeadHost\<close> are
  string constants of another module; the functions take them as a parameter.
\<close>

record domain =
  Vulnerable :: string
  Fixed :: string
  Informational :: string
  DeadHost :: string

text \<open>
  Modelled from the spec: the values of the four constants of package \<open>domain\<close>, which the
  code only names. The spec calls the canonical statuses \<open>Vulnerable\<close>, \<open>Fixed\<close>,
  \<open>Informational\<close> and \<open>DeadHost\<close>. Used for concrete evaluations only.
\<close>

definition canonical :: domain where
  "canonical =
     \<lparr>Vulnerable = ''Vulnerable'', Fixed = ''Fixed'',
      Informational = ''Informational'', DeadHost = ''DeadHost''\<rparr>"


section \<open>\<open>webAppFindingWrapper.Status\<close>\<close>

definition Status :: "domain \<Rightarrow> WebAppFinding \<Rightarrow> string" where
  "Status dmn f =
     (let status = StatusVal f;
          detectionType = Type f
      in if detectionType = ''INFORMATION_GATHERED'' then Informational dmn
         else (let l = ToLower status
               in if l = ''new'' then Vulnerable dmn
                  else if l = ''active'' then Vulnerable dmn
                  else if l = ''reopened'' then Vulnerable dmn
                  else if l = ''fixed'' then Fixed dmn
                  else if l = ''protected'' then Vulnerable dmn
                  else status))"


section \<open>Package qualys: the pagination engine\<close>

text \<open>
  What a pagination run does once it has ended: the host records it sent on its output
  channel before closing it, the requests it posted, in the order posted, the errors it sent
  to the log stream, and the last values of the two variables \<open>totalHosts\<close> and \<open>err\<close> that
  its goroutine shares with the function that started it.
\<close>

record run =
  sent :: "QHost list"
  fetched :: "request list"
  logged :: "error list"
  totalHosts_var :: int
  err_var :: "error option"

text \<open>
  Two goroutines send on one channel: the receiver sees some interleaving of the two
  sequences. The choices (\<open>True\<close>: the first sender goes next) are a parameter; when they run
  out, or one sender has nothing left, the rest arrives in order.
\<close>

fun interleave :: "bool list \<Rightarrow> 'a list \<Rightarrow> 'a list \<Rightarrow> 'a list" where
  "interleave bs [] ys = ys"
| "interleave bs (x # xs) [] = x # xs"
| "interleave [] (x # xs) (y # ys) = (x # xs) @ (y # ys)"
| "interleave (b # bs) (x # xs) (y # ys) =
     (if b then x # interleave bs xs (y # ys) else y # interleave bs (x # xs) ys)"

text \<open>
  The goroutine that \<open>getHostDetectionPostData\<close> starts (lines 119 to 178). It posts the
  request; on an error it logs the error and closes the channel. Otherwise, when the page
  has a \<open>Warning\<close>, a second goroutine calls \<open>getHostDetectionPostData\<close> on the warning's URL
  with the same fields and forwards what that run sends, while this one sends the page's own
  hosts; the channel is closed after both are through. The recursive call returns
  \<open>extrahosts = 0\<close> and a nil error (see \<open>getHostDetectionPostData\<close> below), so the forwarding
  loop is entered and \<open>totalHosts\<close> grows by \<open>0\<close>.

  The argument \<open>merges\<close> gives, page by page, the interleaving of the page's own hosts with
  the forwarded ones. The remote service may chain pages without end: then the run never
  closes its channel and the value is \<open>None\<close>.
\<close>

partial_function (option) getHostDetectionPostData_go ::
  "Session \<Rightarrow> bool list list \<Rightarrow> string \<Rightarrow> fields \<Rightarrow> run option" where
  "getHostDetectionPostData_go session merges path flds =
     (case post session path flds of
        (output, Some e) \<Rightarrow>
          Some \<lparr>sent = [], fetched = [\<lparr>req_path = path, req_fields = flds\<rparr>],
                logged = [e], totalHosts_var = 0, err_var = Some e\<rparr>
      | (output, None) \<Rightarrow>
          (case Warning output of
             None \<Rightarrow>
               Some \<lparr>sent = Hosts output,
                     fetched = [\<lparr>req_path = path, req_fields = flds\<rparr>],
                     logged = [], totalHosts_var = int (length (Hosts output)),
                     err_var = None\<rparr>
           | Some w \<Rightarrow>
               Option.bind (getHostDetectionPostData_go session (tl merges) (URL w) flds)
                 (\<lambda>recursiveOut.
                    Some \<lparr>sent = interleave (case merges of [] \<Rightarrow> [] | bs # _ \<Rightarrow> bs)
                                   (Hosts output) (sent recursiveOut),
                          fetched = \<lparr>req_path = path, req_fields = flds\<rparr> # fetched recursiveOut,
                          logged = logged recursiveOut,
                          totalHosts_var = int (length (Hosts output)) + 0,
                          err_var = None\<rparr>)))"

declare getHostDetectionPostData_go.simps [code]

text \<open>
  \<open>getHostDetectionPostData\<close> itself makes the channel, starts the goroutine with \<open>go\<close> and
  returns \<open>out, totalHosts, err\<close> (line 180). Nothing between the \<open>go\<close> statement and the
  \<open>return\<close> waits for the goroutine, whose first step is a network round trip: the \<open>return\<close>
  reads the two named results before the goroutine has written them, that is, as \<open>0\<close> and
  \<open>nil\<close>. The channel is given by what the run sends on it.
\<close>

definition getHostDetectionPostData ::
  "Session \<Rightarrow> bool list list \<Rightarrow> string \<Rightarrow> fields \<Rightarrow> run option \<times> int \<times> error option" where
  "getHostDetectionPostData session merges path flds =
     (let out = getHostDetectionPostData_go session merges path flds;
          totalHosts = 0;
          err = None
      in (out, totalHosts, err))"


section \<open>Package qualys: the three entry points\<close>

text \<open>The request fields each entry point builds before its network call.\<close>

definition GetTagDetections_fields :: "string list \<Rightarrow> int \<Rightarrow> fields" where
  "GetTagDetections_fields tags kernelFilterFlag =
     [''action'' \<mapsto> ''list'',
      ''truncation_limit'' \<mapsto> ''0'',
      ''show_reopened_info'' \<mapsto> ''1'',
      ''arf_kernel_filter'' \<mapsto> Itoa kernelFilterFlag,
      ''status'' \<mapsto> ''New,Active,Re-Opened,Fixed'',
      ''use_tags'' \<mapsto> ''1'',
      ''tag_set_by'' \<mapsto> (if Atoi (tags ! 0) \<noteq> None then ''id'' else ''name''),
      ''tag_include_selector'' \<mapsto> ''all'',
      ''tag_set_include'' \<mapsto> Join tags '','',
      ''host_metadata'' \<mapsto> ''ec2'',
      ''host_metadata_fields'' \<mapsto> ''instanceId'']"

definition GetHostDetections_fields :: "string list \<Rightarrow> int \<Rightarrow> fields" where
  "GetHostDetections_fields groups kernelFilterFlag =
     [''action'' \<mapsto> ''list'',
      ''truncation_limit'' \<mapsto> ''2500'',
      ''show_reopened_info'' \<mapsto> ''1'',
      ''status'' \<mapsto> ''New,Active,Re-Opened,Fixed'',
      ''arf_kernel_filter'' \<mapsto> Itoa kernelFilterFlag,
      ''ag_ids'' \<mapsto> Join groups '','']"

definition GetHostSpecificDetections_fields :: "string list \<Rightarrow> string list \<Rightarrow> int \<Rightarrow> fields" where
  "GetHostSpecificDetections_fields ip groups kernelFilterFlag =
     [''action'' \<mapsto> ''list'',
      ''truncation_limit'' \<mapsto> ''0'',
      ''show_reopened_info'' \<mapsto> ''1'',
      ''status'' \<mapsto> ''New,Active,Re-Opened,Fixed'',
      ''arf_kernel_filter'' \<mapsto> Itoa kernelFilterFlag,
      ''status'' \<mapsto> ''New,Active,Re-Opened,Fixed'',
      ''ips'' \<mapsto> Join ip '','',
      ''ag_ids'' \<mapsto> Join groups '','']"

text \<open>
  \<open>GetTagDetections\<close> and \<open>GetHostDetections\<close> return the channel (\<open>None\<close>: the nil channel)
  and the error. A nil slice and an empty one both have length \<open>0\<close>.
\<close>

definition GetTagDetections ::
  "Session \<Rightarrow> bool list list \<Rightarrow> string list \<Rightarrow> int \<Rightarrow> run option option \<times> error option" where
  "GetTagDetections session merges tags kernelFilterFlag =
     (if length tags > 0 then
        (let flds = GetTagDetections_fields tags kernelFilterFlag;
             (out, _, err) =
               getHostDetectionPostData session merges (Address session @ qsAssetVMHost session) flds
         in (Some out, err))
      else (None, Some (Errorf ''empty group list passed to GetHostDetections'')))"

definition GetHostDetections ::
  "Session \<Rightarrow> bool list list \<Rightarrow> string list \<Rightarrow> int \<Rightarrow> run option option \<times> error option" where
  "GetHostDetections session merges groups kernelFilterFlag =
     (if length groups > 0 then
        (let flds = GetHostDetections_fields groups kernelFilterFlag;
             (out, _, err) =
               getHostDetectionPostData session merges (Address session @ qsAssetVMHost session) flds
         in (Some out, err))
      else (None, Some (Errorf ''empty group list passed to GetHostDetections'')))"

text \<open>
  \<open>GetHostSpecificDetections\<close> returns the output pointer (\<open>None\<close>: nil) and the error; the
  third component lists the requests it posted.
\<close>

definition GetHostSpecificDetections ::
  "Session \<Rightarrow> string list \<Rightarrow> string list \<Rightarrow> int \<Rightarrow>
     QHostListDetectionOutput option \<times> error option \<times> request list" where
  "GetHostSpecificDetections session ip groups kernelFilterFlag =
     (if length ip > 0 then
        (let flds = GetHostSpecificDetections_fields ip groups kernelFilterFlag;
             path = Address session @ qsAssetVMHost session;
             (output, err) = post session path flds
         in (Some output, err, [\<lparr>req_path = path, req_fields = flds\<rparr>]))
      else (None, None, []))"


section \<open>Package connector: cancellation and the emitted events\<close>

text \<open>
  Every \<open>select\<close> of the code has the case \<open><-ctx.Done()\<close> and one channel operation. The
  context is given by the outcomes of the successive selects: \<open>True\<close> when the \<open>Done\<close> case is
  taken. Past the end of the list the signal is never taken.
\<close>

type_synonym ctx = "bool list"

definition ctx_Done :: "ctx \<Rightarrow> bool" where
  "ctx_Done ctx = (case ctx of [] \<Rightarrow> False | b # _ \<Rightarrow> b)"

text \<open>The event sent on the output channel: \<open>hostDetectionCombo\<close>, a host and one detection.\<close>

record hostDetectionCombo =
  host :: QHost
  detection :: QDetection

text \<open>
  Modelled from the spec: the identity key of a Detection Event, \<open>(device identifier,
  vulnerability identifier)\<close>. The methods of \<open>hostDetectionCombo\<close> that give the two
  identifiers are in files that are not part of this development; the host's \<open>HostID\<close> and
  the detection's \<open>QID\<close> stand for them.
\<close>

definition identity_key :: "hostDetectionCombo \<Rightarrow> int \<times> int" where
  "identity_key e = (HostID (host e), QID (detection e))"

datatype panic = NilPointerDereference


section \<open>\<open>pushDetectionsOnChannel\<close>\<close>

text \<open>
  The inner loop over the detections of one host \<open>h\<close> and the outer loop over the hosts. The
  result is the return value (\<open>True\<close>: cancelled), the rest of the context and the events
  sent so far. Looking up a key that a Go map does not hold gives the empty string.
\<close>

fun pushDetections_host ::
  "domain \<Rightarrow> ctx \<Rightarrow> QHost \<Rightarrow> QDetection list \<Rightarrow> (string \<rightharpoonup> string) \<Rightarrow> hostDetectionCombo list \<Rightarrow>
     bool \<times> ctx \<times> hostDetectionCombo list" where
  "pushDetections_host dmn ctx h [] deadHostIPToProof out = (False, ctx, out)"
| "pushDetections_host dmn ctx h (d # ds) deadHostIPToProof out =
     (let deadHostProof = (case deadHostIPToProof (IPAddress h) of None \<Rightarrow> [] | Some p \<Rightarrow> p);
          d' = (if length deadHostProof > 0
                then d\<lparr>DetectionStatus := DeadHost dmn, DetectionProof := deadHostProof\<rparr>
                else if DetectionStatus d = ''Fixed'' then d\<lparr>DetectionStatus := Fixed dmn\<rparr>
                else d)
      in if ctx_Done ctx then (True, tl ctx, out)
         else pushDetections_host dmn (tl ctx) h ds deadHostIPToProof
                (out @ [\<lparr>host = h, detection = d'\<rparr>]))"

fun pushDetections_hosts ::
  "domain \<Rightarrow> ctx \<Rightarrow> QHost list \<Rightarrow> (string \<rightharpoonup> string) \<Rightarrow> hostDetectionCombo list \<Rightarrow>
     bool \<times> ctx \<times> hostDetectionCombo list" where
  "pushDetections_hosts dmn ctx [] deadHostIPToProof out = (False, ctx, out)"
| "pushDetections_hosts dmn ctx (h # hs) deadHostIPToProof out =
     (case pushDetections_host dmn ctx h (HostDetections h) deadHostIPToProof out of
        (True, ctx', out') \<Rightarrow> (True, ctx', out')
      | (False, ctx', out') \<Rightarrow> pushDetections_hosts dmn ctx' hs deadHostIPToProof out')"

text \<open>\<open>output\<close> is a pointer: reading \<open>output.Hosts\<close> through a nil pointer panics.\<close>

definition pushDetectionsOnChannel ::
  "domain \<Rightarrow> ctx \<Rightarrow> QHostListDetectionOutput option \<Rightarrow> (string \<rightharpoonup> string) \<Rightarrow>
     hostDetectionCombo list \<Rightarrow> panic + bool \<times> ctx \<times> hostDetectionCombo list" where
  "pushDetectionsOnChannel dmn ctx output deadHostIPToProof out =
     (case output of
        None \<Rightarrow> Inl NilPointerDereference
      | Some output' \<Rightarrow> Inr (pushDetections_hosts dmn ctx (Hosts output') deadHostIPToProof out))"

text \<open>
  The rule of the Detection Expander in the words of the spec, with the test the code makes
  on the proof text: a host whose address has a non-empty proof text in the dead-host map is
  a dead host, with that proof; failing that, the vendor's \<open>Fixed\<close> becomes the canonical
  \<open>Fixed\<close>; any other finding is passed on as it is.
\<close>

definition expand :: "domain \<Rightarrow> (string \<rightharpoonup> string) \<Rightarrow> QHost \<Rightarrow> QDetection \<Rightarrow> hostDetectionCombo" where
  "expand dmn deadHostIPToProof h d =
     \<lparr>host = h,
      detection =
        (case deadHostIPToProof (IPAddress h) of
           Some (c # cs) \<Rightarrow> d\<lparr>DetectionStatus := DeadHost dmn, DetectionProof := c # cs\<rparr>
         | _ \<Rightarrow> if DetectionStatus d = ''Fixed'' then d\<lparr>DetectionStatus := Fixed dmn\<rparr> else d)\<rparr>"

definition expand_all ::
  "domain \<Rightarrow> (string \<rightharpoonup> string) \<Rightarrow> QHost list \<Rightarrow> hostDetectionCombo list" where
  "expand_all dmn deadHostIPToProof hs =
     concat (map (\<lambda>h. map (expand dmn deadHostIPToProof h) (HostDetections h)) hs)"

text \<open>
  The items of a loop that are handled before one of its selects takes the \<open>Done\<close> case, one
  select for each item.
\<close>

fun until_Done :: "ctx \<Rightarrow> 'a list \<Rightarrow> 'a list" where
  "until_Done ctx [] = []"
| "until_Done [] (x # xs) = x # xs"
| "until_Done (b # bs) (x # xs) = (if b then [] else x # until_Done bs xs)"


section \<open>\<open>QsSession.Detections\<close>\<close>

definition tagPrefix :: string where
  "tagPrefix = ''tag-''"

text \<open>The loop over \<open>ids\<close> (lines 77 to 83), with the two slices it appends to.\<close>

fun Detections_partition ::
  "string list \<Rightarrow> string list \<Rightarrow> string list \<Rightarrow> string list \<times> string list" where
  "Detections_partition [] tags groupIDs = (tags, groupIDs)"
| "Detections_partition (x # ids) tags groupIDs =
     (if Index x tagPrefix \<ge> 0
      then Detections_partition ids
             (tags @ [drop (nat (Index x tagPrefix + int (length tagPrefix))) x]) groupIDs
      else Detections_partition ids tags (groupIDs @ [x]))"

text \<open>
  The state the units of work of one sub-pipeline share: the seen-set \<open>processedDevVulns\<close>
  with its mutex, the output channel and the context. In the code the seen-set is a
  \<open>map[string]bool\<close> whose keys \<open>pushCombosForHost\<close> builds; here it is the set of the
  identity keys that have been recorded.
\<close>

record fanout =
  processedDevVulns :: "(int \<times> int) set"
  out_events :: "hostDetectionCombo list"
  fan_ctx :: ctx

text \<open>
  Modelled from the spec: \<open>pushCombosForHost\<close>, the unit of work run for each host, is in a
  file that is not part of this development. By the spec it computes, for each finding of the
  host, the identity key, tests and sets it in the shared seen-set as one atomic step, drops
  the event when the key was there, and otherwise emits it, observing cancellation before
  emitting. \<open>pushCombo\<close> is that step for one finding; its first component says whether the
  unit goes on to its next finding.
\<close>

definition pushCombo :: "QHost \<Rightarrow> QDetection \<Rightarrow> fanout \<Rightarrow> bool \<times> fanout" where
  "pushCombo h d st =
     (let k = identity_key \<lparr>host = h, detection = d\<rparr>
      in if k \<in> processedDevVulns st then (True, st)
         else (let st' = st\<lparr>processedDevVulns := insert k (processedDevVulns st)\<rparr>
               in if ctx_Done (fan_ctx st') then (False, st'\<lparr>fan_ctx := tl (fan_ctx st')\<rparr>)
                  else (True, st'\<lparr>out_events := out_events st' @ [\<lparr>host = h, detection = d\<rparr>],
                                  fan_ctx := tl (fan_ctx st')\<rparr>)))"

text \<open>
  Modelled from the spec: the loop of \<open>pushCombosForHost\<close> over the findings of its host,
  in their order, from a given finding to the end or to the cancellation; \<open>pushCombosForHost\<close>
  starts it at the first finding.
\<close>

fun pushCombos :: "QHost \<Rightarrow> QDetection list \<Rightarrow> fanout \<Rightarrow> fanout" where
  "pushCombos h [] st = st"
| "pushCombos h (d # ds) st =
     (case pushCombo h d st of
        (True, st') \<Rightarrow> pushCombos h ds st'
      | (False, st') \<Rightarrow> st')"

definition pushCombosForHost :: "QHost \<Rightarrow> fanout \<Rightarrow> fanout" where
  "pushCombosForHost h st = pushCombos h (HostDetections h) st"

text \<open>
  The units of work run concurrently, one goroutine for each host received. A unit is the
  host and its findings still to handle; \<open>picks\<close> names the unit that makes the next step, so
  that every interleaving of the units is some \<open>picks\<close>. When the picks run out, the units
  left run to their end one after the other: \<open>wg.Wait()\<close> returns after the last of them.
\<close>

fun run_units :: "nat list \<Rightarrow> (QHost \<times> QDetection list) list \<Rightarrow> fanout \<Rightarrow> fanout" where
  "run_units [] units st = fold (\<lambda>(h, ds). pushCombos h ds) units st"
| "run_units (i # picks) units st =
     (if i < length units then
        (case units ! i of
           (h, []) \<Rightarrow> run_units picks units st
         | (h, d # ds) \<Rightarrow>
             (case pushCombo h d st of
                (True, st') \<Rightarrow> run_units picks (units[i := (h, ds)]) st'
              | (False, st') \<Rightarrow> run_units picks (units[i := (h, [])]) st'))
      else run_units picks units st)"

text \<open>
  The dispatch loop (lines 95 to 113, and again 131 to 149): each turn is one select, which
  takes the \<open>Done\<close> case and returns, or receives from \<open>hosts\<close>; a host received starts a unit
  of work, the closed channel ends the loop. The result is the hosts that got a unit of work.
\<close>

fun dispatch :: "ctx \<Rightarrow> QHost list \<Rightarrow> QHost list \<times> ctx" where
  "dispatch ctx [] = ([], tl ctx)"
| "dispatch ctx (h # hs) =
     (if ctx_Done ctx then ([], tl ctx)
      else (let (started, ctx') = dispatch (tl ctx) hs in (h # started, ctx')))"

text \<open>
  One sub-pipeline (lines 91 to 114, and again 127 to 150): a fresh seen-set, the dispatch
  loop over the channel of a pagination run, the units of work, and \<open>wg.Wait()\<close>.
\<close>

definition Detections_stage :: "ctx \<Rightarrow> nat list \<Rightarrow> QHost list \<Rightarrow> hostDetectionCombo list \<times> ctx" where
  "Detections_stage ctx picks hosts =
     (let (started, ctx') = dispatch ctx hosts;
          st = run_units picks (map (\<lambda>h. (h, HostDetections h)) started)
                 \<lparr>processedDevVulns = {}, out_events = [], fan_ctx = ctx'\<rparr>
      in (out_events st, fan_ctx st))"

text \<open>The connector's session: the API session and \<open>payload.KernelFilter\<close>.\<close>

record QsSession =
  apiSession :: Session
  KernelFilter :: int

text \<open>The scheduling choices of one call: the page merges and the picks of each stage.\<close>

record schedule =
  group_merges :: "bool list list"
  group_picks :: "nat list"
  tag_merges :: "bool list list"
  tag_picks :: "nat list"

text \<open>
  What the goroutine of \<open>Detections\<close> has done when it closes \<open>out\<close>: the events of the
  group-ID stage, then those of the tag stage, and the requests posted for either.
\<close>

record detections_run =
  group_events :: "hostDetectionCombo list"
  tag_events :: "hostDetectionCombo list"
  requests :: "request list"

definition emitted :: "detections_run \<Rightarrow> hostDetectionCombo list" where
  "emitted r = group_events r @ tag_events r"

text \<open>
  What follows the fetch in either stage (lines 89 to 118, and again 125 to 154): with a nil
  error the sub-pipeline runs on the channel returned, otherwise the error is logged and
  nothing is emitted. The result is the events emitted, the requests posted and the rest of
  the context. A pagination run that never ends never closes its channel, and receiving
  from a nil channel blocks: for both the result is \<open>None\<close>.
\<close>

definition Detections_sub ::
  "run option option \<times> error option \<Rightarrow> ctx \<Rightarrow> nat list \<Rightarrow>
     (hostDetectionCombo list \<times> request list \<times> ctx) option" where
  "Detections_sub fetch ctx picks =
     (case fetch of
        (hosts, None) \<Rightarrow>
          Option.bind (Option.bind hosts (\<lambda>r. r))
            (\<lambda>r. let (evs, ctx') = Detections_stage ctx picks (sent r)
                 in Some (evs, fetched r, ctx'))
      | (hosts, Some e) \<Rightarrow> Some ([], [], ctx))"

text \<open>
  The goroutine of \<open>Detections\<close> (lines 70 to 157): the partition of the identifiers, the
  group-ID stage when there is a group identifier, then the tag stage when there is a tag.
\<close>

definition Detections_go ::
  "QsSession \<Rightarrow> schedule \<Rightarrow> ctx \<Rightarrow> string list \<Rightarrow> detections_run option" where
  "Detections_go session sch ctx ids =
     (let (tags, groupIDs) = Detections_partition ids [] []
      in Option.bind
           (if length groupIDs > 0 then
              Detections_sub
                (GetHostDetections (apiSession session) (group_merges sch) groupIDs
                   (KernelFilter session))
                ctx (group_picks sch)
            else Some ([], [], ctx))
           (\<lambda>(evs1, reqs1, ctx1).
              Option.bind
                (if length tags > 0 then
                   Detections_sub
                     (GetTagDetections (apiSession session) (tag_merges sch) tags
                        (KernelFilter session))
                     ctx1 (tag_picks sch)
                 else Some ([], [], ctx1))
                (\<lambda>(evs2, reqs2, ctx2).
                   Some \<lparr>group_events = evs1, tag_events = evs2, requests = reqs1 @ reqs2\<rparr>)))"

text \<open>
  \<open>Detections\<close> starts that goroutine and returns \<open>out, err\<close>; as in
  \<open>getHostDetectionPostData\<close>, the \<open>return\<close> does not wait for it and reads \<open>err\<close> as nil.
\<close>

definition Detections ::
  "QsSession \<Rightarrow> schedule \<Rightarrow> ctx \<Rightarrow> string list \<Rightarrow> detections_run option \<times> error option" where
  "Detections session sch ctx ids = (Detections_go session sch ctx ids, None)"


section \<open>The chain of pages of the remote service\<close>

text \<open>
  The pagination rule in the words of the spec: the first page is fetched; a page that comes
  with a continuation descriptor is followed by the fetch of the page the descriptor names,
  once; a page without one, or a failed fetch, ends the chain. \<open>page_chain s flds p ps\<close>:
  starting at path \<open>p\<close>, the paths fetched are \<open>ps\<close>.
\<close>

inductive page_chain :: "Session \<Rightarrow> fields \<Rightarrow> string \<Rightarrow> string list \<Rightarrow> bool" where
  failed: "snd (post s p flds) = Some e \<Longrightarrow> page_chain s flds p [p]"
| last_page: "post s p flds = (pg, None) \<Longrightarrow> Warning pg = None \<Longrightarrow> page_chain s flds p [p]"
| next_page: "post s p flds = (pg, None) \<Longrightarrow> Warning pg = Some w \<Longrightarrow>
     page_chain s flds (URL w) ps \<Longrightarrow> page_chain s flds p (p # ps)"


section \<open>Example values\<close>

text \<open>
  A host on which the service reports the same vulnerability on two ports, and one fixed
  vulnerability.
\<close>

definition example_host :: QHost where
  "example_host =
     \<lparr>HostID = 101, IPAddress = ''10.0.0.5'',
      HostDetections =
        [\<lparr>QID = 38170, DetectionStatus = ''Active'', DetectionProof = ''port 443''\<rparr>,
         \<lparr>QID = 38170, DetectionStatus = ''Active'', DetectionProof = ''port 8443''\<rparr>,
         \<lparr>QID = 105489, DetectionStatus = ''Fixed'', DetectionProof = []\<rparr>]\<rparr>"

text \<open>
  A service with two pages: the first page has no host record and a continuation descriptor,
  the page it names has one host and no descriptor.
\<close>

definition two_pages :: Session where
  "two_pages =
     \<lparr>post = (\<lambda>path flds.
        if path = ''https://qualysapi.example/detection/''
        then (\<lparr>Hosts = [], Warning = Some \<lparr>URL = ''https://qualysapi.example/next''\<rparr>\<rparr>, None)
        else (\<lparr>Hosts = [example_host], Warning = None\<rparr>, None)),
      Address = ''https://qualysapi.example'',
      qsAssetVMHost = ''/detection/''\<rparr>"

text \<open>A service that cannot be reached: every \<open>post\<close> fails.\<close>

definition unreachable :: Session where
  "unreachable =
     \<lparr>post = (\<lambda>path flds. (\<lparr>Hosts = [], Warning = None\<rparr>, Some (Errorf ''connection refused''))),
      Address = ''https://qualysapi.example'',
      qsAssetVMHost = ''/detection/''\<rparr>"


text \<open>The schedule with no choices: pages and units of work take their turns in order.\<close>

definition in_order :: schedule where
  "in_order = \<lparr>group_merges = [], group_picks = [], tag_merges = [], tag_picks = []\<rparr>"


section \<open>The invariant of the seen-set\<close>

text \<open>
  What the units of work of one sub-pipeline keep true of their shared state: the events
  emitted so far have pairwise different identity keys, and each of these keys is in the
  seen-set.
\<close>

definition deduplicated :: "fanout \<Rightarrow> bool" where
  "deduplicated st \<longleftrightarrow>
     distinct (map identity_key (out_events st))
     \<and> identity_key ` set (out_events st) \<subseteq> processedDevVulns st"


section \<open>The status vocabulary of \<open>Status\<close>\<close>

text \<open>
  Claim C3, as amended. \<open>Status\<close> returns the canonical \<open>Informational\<close> whenever the kind
  is \<open>INFORMATION_GATHERED\<close>, whatever the raw status. For any other kind it returns
  \<open>Vulnerable\<close> for the raw statuses New, Active, Reopened (written without a hyphen) and
  Protected, and \<open>Fixed\<close> for Fixed, each also in capitals as the service writes them; the
  hyphenated raw status \<open>Re-Opened\<close> is not in the table of the code and is returned as it is.
\<close>

theorem Status_vocabulary:
  assumes "kind \<noteq> ''INFORMATION_GATHERED''"
  shows "Status dmn \<lparr>Qid = q, StatusVal = raw, Type = ''INFORMATION_GATHERED''\<rparr> = Informational dmn
    \<and> Status dmn \<lparr>Qid = q, StatusVal = ''New'', Type = kind\<rparr> = Vulnerable dmn
    \<and> Status dmn \<lparr>Qid = q, StatusVal = ''Active'', Type = kind\<rparr> = Vulnerable dmn
    \<and> Status dmn \<lparr>Qid = q, StatusVal = ''Reopened'', Type = kind\<rparr> = Vulnerable dmn
    \<and> Status dmn \<lparr>Qid = q, StatusVal = ''Protected'', Type = kind\<rparr> = Vulnerable dmn
    \<and> Status dmn \<lparr>Qid = q, StatusVal = ''Fixed'', Type = kind\<rparr> = Fixed dmn
    \<and> Status dmn \<lparr>Qid = q, StatusVal = ''NEW'', Type = kind\<rparr> = Vulnerable dmn
    \<and> Status dmn \<lparr>Qid = q, StatusVal = ''ACTIVE'', Type = kind\<rparr> = Vulnerable dmn
    \<and> Status dmn \<lparr>Qid = q, StatusVal = ''REOPENED'', Type = kind\<rparr> = Vulnerable dmn
    \<and> Status dmn \<lparr>Qid = q, StatusVal = ''PROTECTED'', Type = kind\<rparr> = Vulnerable dmn
    \<and> Status dmn \<lparr>Qid = q, StatusVal = ''FIXED'', Type = kind\<rparr> = Fixed dmn
    \<and> Status dmn \<lparr>Qid = q, StatusVal = ''Re-Opened'', Type = kind\<rparr> = ''Re-Opened''"
  using assms by (simp add: Status_def ToLower_def toLower_byte_def)

theorem Status_vocabulary_witness:
  "''VULNERABILITY'' \<noteq> ''INFORMATION_GATHERED''
   \<and> Status canonical \<lparr>Qid = ''150001'', StatusVal = ''Active'', Type = ''VULNERABILITY''\<rparr>
       = ''Vulnerable''
   \<and> Status canonical \<lparr>Qid = ''150001'', StatusVal = ''Re-Opened'', Type = ''VULNERABILITY''\<rparr>
       = ''Re-Opened''
   \<and> Status canonical \<lparr>Qid = ''150001'', StatusVal = ''Re-Opened'', Type = ''INFORMATION_GATHERED''\<rparr>
       = ''Informational''"
  using Status_vocabulary [of "''VULNERABILITY''" canonical "''150001''" "''Re-Opened''"]
  by (simp add: canonical_def)

text \<open>
  The claim as it is written fails at the raw status \<open>Re-Opened\<close> of a finding of kind
  \<open>VULNERABILITY\<close>: the lowered text \<open>re-opened\<close> matches no case of the switch.
\<close>

theorem Status_ReOpened_counterexample:
  "Status canonical \<lparr>Qid = ''150001'', StatusVal = ''Re-Opened'', Type = ''VULNERABILITY''\<rparr>
     \<noteq> Vulnerable canonical"
  by (simp add: Status_def ToLower_def toLower_byte_def canonical_def)


section \<open>The partition of the identifiers in \<open>Detections\<close>\<close>

lemma Index_lower: "- 1 \<le> Index s sub"
  by (induction s) (auto simp: Let_def)

lemma Index_sublist: "0 \<le> Index s sub \<longleftrightarrow> sublist sub s"
proof (induction s)
  case Nil
  then show ?case by simp
next
  case (Cons c cs)
  then show ?case
    using Index_lower [of cs sub] by (auto simp: Let_def sublist_Cons_right)
qed

lemma Index_prefix: "prefix sub s \<Longrightarrow> Index s sub = 0"
  by (cases s) auto

lemma prefix_early:
  assumes "prefix sub (c # p @ sub @ q)"
  shows "prefix sub (c # p @ butlast sub)"
proof (cases "sub = []")
  case True
  then show ?thesis by simp
next
  case False
  have "take (length sub) (c # p @ sub @ q) = sub"
    using assms by (metis append_eq_conv_conj prefix_def)
  moreover have "take (length sub) (c # p @ sub @ q) = take (length sub) (c # p @ butlast sub)"
    using False by (cases sub rule: rev_cases) (auto simp: take_Cons')
  ultimately have "take (length sub) (c # p @ butlast sub) = sub" by simp
  then show ?thesis by (metis take_is_prefix)
qed

text \<open>\<open>Index\<close> finds the first occurrence: the one with no occurrence starting before it.\<close>

lemma Index_first:
  "\<not> sublist sub (p @ butlast sub) \<Longrightarrow> Index (p @ sub @ q) sub = int (length p)"
proof (induction p)
  case Nil
  then show ?case by (simp add: Index_prefix)
next
  case (Cons c p)
  have np: "\<not> prefix sub (c # p @ sub @ q)"
    using Cons.prems prefix_early [of sub c p q] by (auto simp: sublist_Cons_right)
  have "\<not> sublist sub (p @ butlast sub)"
    using Cons.prems by (auto simp: sublist_Cons_right)
  then have "Index (p @ sub @ q) sub = int (length p)" by (rule Cons.IH)
  then show ?case using np by (simp add: Let_def)
qed

lemma partition_acc:
  "Detections_partition ids tags groupIDs =
     (tags @ map (\<lambda>x. drop (nat (Index x tagPrefix) + length tagPrefix) x)
               (filter (\<lambda>x. sublist tagPrefix x) ids),
      groupIDs @ filter (\<lambda>x. \<not> sublist tagPrefix x) ids)"
proof (induction ids arbitrary: tags groupIDs)
  case Nil
  then show ?case by simp
next
  case (Cons x ids)
  show ?case
  proof (cases "sublist tagPrefix x")
    case True
    then have "0 \<le> Index x tagPrefix" by (simp add: Index_sublist)
    then show ?thesis using True Cons.IH
      by (simp add: nat_add_distrib)
  next
    case False
    then have "\<not> 0 \<le> Index x tagPrefix" by (simp add: Index_sublist)
    then show ?thesis using False Cons.IH by simp
  qed
qed

text \<open>
  Claim C9, as amended. The identifiers in which the literal \<open>tag-\<close> occurs, at the start or
  further in, are the tag-style ones, each cut down to what follows the first occurrence of
  \<open>tag-\<close>; every other identifier is group-style; both lists keep the order of the input. An
  identifier that starts with \<open>tag-\<close> loses exactly that prefix, and
  \<open>["ag1","tag-prod","ag2"]\<close> gives the groups \<open>["ag1","ag2"]\<close> and the tags \<open>["prod"]\<close>.
\<close>

theorem Detections_partition_contains:
  "Detections_partition ids [] [] =
     (map (\<lambda>x. drop (nat (Index x tagPrefix) + length tagPrefix) x)
        (filter (\<lambda>x. \<exists>p q. x = p @ tagPrefix @ q) ids),
      filter (\<lambda>x. \<not> (\<exists>p q. x = p @ tagPrefix @ q)) ids)
   \<and> (\<forall>p q. (\<nexists>p' q'. p @ ''tag'' = p' @ tagPrefix @ q') \<longrightarrow>
          Detections_partition [p @ tagPrefix @ q] [] [] = ([q], []))
   \<and> Detections_partition [tagPrefix @ q] [] [] = ([q], [])
   \<and> Detections_partition [''ag1'', ''tag-prod'', ''ag2''] [] [] = ([''prod''], [''ag1'', ''ag2''])"
proof -
  have a: "Detections_partition ids [] [] =
     (map (\<lambda>x. drop (nat (Index x tagPrefix) + length tagPrefix) x)
        (filter (\<lambda>x. \<exists>p q. x = p @ tagPrefix @ q) ids),
      filter (\<lambda>x. \<not> (\<exists>p q. x = p @ tagPrefix @ q)) ids)"
    by (simp add: partition_acc sublist_def)
  have b: "Detections_partition [p @ tagPrefix @ q] [] [] = ([q], [])"
    if "\<nexists>p' q'. p @ ''tag'' = p' @ tagPrefix @ q'" for p q
  proof -
    have "\<not> sublist tagPrefix (p @ butlast tagPrefix)"
      using that by (simp add: sublist_def tagPrefix_def)
    then have "Index (p @ tagPrefix @ q) tagPrefix = int (length p)"
      by (rule Index_first)
    then show ?thesis by (simp add: nat_add_distrib)
  qed
  have c: "Detections_partition [tagPrefix @ q] [] [] = ([q], [])"
    using b [of "[]" q] by (simp add: tagPrefix_def)
  have d: "Detections_partition [''ag1'', ''tag-prod'', ''ag2''] [] [] = ([''prod''], [''ag1'', ''ag2''])"
    by (simp add: tagPrefix_def)
  show ?thesis using a b c d by blast
qed

theorem Detections_partition_contains_witness:
  "(\<nexists>p' q'. ''s'' @ ''tag'' = p' @ tagPrefix @ q')
   \<and> Detections_partition [''s'' @ tagPrefix @ ''1''] [] [] = ([''1''], [])"
proof -
  have h: "\<nexists>p' q'. ''s'' @ ''tag'' = p' @ tagPrefix @ q'"
  proof -
    have "\<not> sublist tagPrefix ''stag''" by (simp add: tagPrefix_def sublist_Cons_right)
    then show ?thesis by (simp add: sublist_def)
  qed
  from Detections_partition_contains [of "[]" "[]"]
  have "\<forall>p q. (\<nexists>p' q'. p @ ''tag'' = p' @ tagPrefix @ q') \<longrightarrow>
          Detections_partition [p @ tagPrefix @ q] [] [] = ([q], [])"
    by blast
  with h show ?thesis by blast
qed

text \<open>
  The claim as it is written fails at \<open>stag-1\<close>: the identifier does not start with \<open>tag-\<close>,
  and the code makes it the tag \<open>1\<close> instead of a group identifier.
\<close>

theorem Detections_partition_counterexample:
  "\<not> prefix ''tag-'' ''stag-1''
   \<and> Detections_partition [''ag1'', ''stag-1''] [] [] = ([''1''], [''ag1''])"
  by (simp add: tagPrefix_def)


section \<open>The entry points of package qualys\<close>

text \<open>
  Claim C10. For a non-empty tag list the request field \<open>tag_set_by\<close> is \<open>id\<close> when the first
  tag parses as an integer and \<open>name\<close> when it does not, whatever the other tags are; these
  are the fields \<open>GetTagDetections\<close> hands to the pagination engine. A list of a number
  followed by a name counts as ids, a name followed by a number as names.
\<close>

theorem GetTagDetections_tag_set_by:
  "GetTagDetections_fields (t # ts) k ''tag_set_by''
     = Some (if Atoi t = None then ''name'' else ''id'')
   \<and> GetTagDetections s merges (t # ts) k =
       (Some (getHostDetectionPostData_go s merges (Address s @ qsAssetVMHost s)
                (GetTagDetections_fields (t # ts) k)), None)
   \<and> GetTagDetections_fields [''123'', ''prod''] k ''tag_set_by'' = Some ''id''
   \<and> GetTagDetections_fields [''prod'', ''123''] k ''tag_set_by'' = Some ''name''"
  by (simp add: GetTagDetections_fields_def GetTagDetections_def getHostDetectionPostData_def
      Atoi_def digit_val_def)

text \<open>
  Claim C8, at the inputs it is about. An empty group list and an empty tag list are
  rejected with an error and without a channel, hence without a request. An empty IP list
  makes \<open>GetHostSpecificDetections\<close> post nothing as well, but it returns a nil output and a
  nil error: the branch that sets the error is missing there.
\<close>

theorem empty_selectors:
  "GetHostSpecificDetections s [] groups k = (None, None, [])
   \<and> GetHostDetections s merges [] k
       = (None, Some (Errorf ''empty group list passed to GetHostDetections''))
   \<and> GetTagDetections s merges [] k
       = (None, Some (Errorf ''empty group list passed to GetHostDetections''))"
  by (simp add: GetHostSpecificDetections_def GetHostDetections_def GetTagDetections_def)


section \<open>The pagination engine\<close>

lemma go_failed:
  "post s p flds = (pg, Some e) \<Longrightarrow>
   getHostDetectionPostData_go s merges p flds =
     Some \<lparr>sent = [], fetched = [\<lparr>req_path = p, req_fields = flds\<rparr>], logged = [e],
           totalHosts_var = 0, err_var = Some e\<rparr>"
  by (subst getHostDetectionPostData_go.simps) simp

lemma go_last:
  "post s p flds = (pg, None) \<Longrightarrow> Warning pg = None \<Longrightarrow>
   getHostDetectionPostData_go s merges p flds =
     Some \<lparr>sent = Hosts pg, fetched = [\<lparr>req_path = p, req_fields = flds\<rparr>], logged = [],
           totalHosts_var = int (length (Hosts pg)), err_var = None\<rparr>"
  by (subst getHostDetectionPostData_go.simps) simp

lemma go_next:
  "post s p flds = (pg, None) \<Longrightarrow> Warning pg = Some w \<Longrightarrow>
   getHostDetectionPostData_go s merges p flds =
     Option.bind (getHostDetectionPostData_go s (tl merges) (URL w) flds)
       (\<lambda>recursiveOut.
          Some \<lparr>sent = interleave (case merges of [] \<Rightarrow> [] | bs # _ \<Rightarrow> bs)
                         (Hosts pg) (sent recursiveOut),
                fetched = \<lparr>req_path = p, req_fields = flds\<rparr> # fetched recursiveOut,
                logged = logged recursiveOut,
                totalHosts_var = int (length (Hosts pg)),
                err_var = None\<rparr>)"
  by (subst getHostDetectionPostData_go.simps) simp

text \<open>
  Claim C2, at the input where it fails. When the first \<open>post\<close> fails, the run sends no
  record, logs the error and leaves it in the shared variable \<open>err\<close>; the error that
  \<open>GetHostDetections\<close> and \<open>GetTagDetections\<close> return to their caller is nil all the same.
\<close>

theorem first_fetch_error_not_returned:
  assumes "post s (Address s @ qsAssetVMHost s) (GetHostDetections_fields (g # gs) k) = (pg, Some e)"
      and "post s (Address s @ qsAssetVMHost s) (GetTagDetections_fields (g # gs) k) = (pg', Some e')"
  shows "GetHostDetections s merges (g # gs) k =
           (Some (Some \<lparr>sent = [],
                        fetched = [\<lparr>req_path = Address s @ qsAssetVMHost s,
                                    req_fields = GetHostDetections_fields (g # gs) k\<rparr>],
                        logged = [e], totalHosts_var = 0, err_var = Some e\<rparr>), None)
     \<and> GetTagDetections s merges (g # gs) k =
           (Some (Some \<lparr>sent = [],
                        fetched = [\<lparr>req_path = Address s @ qsAssetVMHost s,
                                    req_fields = GetTagDetections_fields (g # gs) k\<rparr>],
                        logged = [e'], totalHosts_var = 0, err_var = Some e'\<rparr>), None)"
  using assms
  by (simp add: GetHostDetections_def GetTagDetections_def getHostDetectionPostData_def go_failed)

theorem first_fetch_error_not_returned_witness:
  "snd (post unreachable (Address unreachable @ qsAssetVMHost unreachable)
          (GetHostDetections_fields [''1234''] 0)) = Some (Errorf ''connection refused'')
   \<and> snd (GetHostDetections unreachable [] [''1234''] 0) = None
   \<and> snd (GetTagDetections unreachable [] [''1234''] 0) = None"
  using first_fetch_error_not_returned [of unreachable "''1234''" "[]" 0
      "\<lparr>Hosts = [], Warning = None\<rparr>" "Errorf ''connection refused''"
      "\<lparr>Hosts = [], Warning = None\<rparr>" "Errorf ''connection refused''" "[]"]
  by (simp add: unreachable_def)

lemma chain_returns:
  "page_chain s flds p ps \<Longrightarrow>
   \<exists>r. getHostDetectionPostData_go s merges p flds = Some r
       \<and> map req_path (fetched r) = ps \<and> (\<forall>q \<in> set (fetched r). req_fields q = flds)"
proof (induction arbitrary: merges rule: page_chain.induct)
  case (failed s p flds e)
  obtain pg where "post s p flds = (pg, Some e)"
    using failed by (cases "post s p flds") auto
  then show ?case by (simp add: go_failed)
next
  case (last_page s p flds pg)
  then show ?case by (simp add: go_last)
next
  case (next_page s p flds pg w ps)
  from next_page.IH [of "tl merges"] obtain r where
    r: "getHostDetectionPostData_go s (tl merges) (URL w) flds = Some r"
       "map req_path (fetched r) = ps" "\<forall>q \<in> set (fetched r). req_fields q = flds"
    by blast
  show ?case
    using next_page.hyps(1,2) r by (simp add: go_next)
qed

lemma returns_chain:
  assumes "getHostDetectionPostData_go s merges p flds = Some r"
  shows "page_chain s flds p (map req_path (fetched r))"
proof (rule getHostDetectionPostData_go.raw_induct
    [where P = "\<lambda>s merges p flds r. page_chain s flds p (map req_path (fetched r))", OF _ assms],
    goal_cases)
  case (1 go s merges p flds r)
  obtain pg eo where po: "post s p flds = (pg, eo)" by (cases "post s p flds")
  show ?case
  proof (cases eo)
    case (Some e)
    with po 1(2) have "fetched r = [\<lparr>req_path = p, req_fields = flds\<rparr>]" by auto
    moreover have "page_chain s flds p [p]" using po Some by (auto intro: page_chain.failed)
    ultimately show ?thesis by simp
  next
    case None
    show ?thesis
    proof (cases "Warning pg")
      case wn: None
      with po None 1(2) have "fetched r = [\<lparr>req_path = p, req_fields = flds\<rparr>]" by auto
      moreover have "page_chain s flds p [p]" using po None wn by (auto intro: page_chain.last_page)
      ultimately show ?thesis by simp
    next
      case (Some w)
      with po None 1(2) obtain r' where
        r': "go s (tl merges) (URL w) flds = Some r'"
            "fetched r = \<lparr>req_path = p, req_fields = flds\<rparr> # fetched r'"
        by (auto simp: bind_eq_Some_conv)
      from 1(1) [OF r'(1)] have "page_chain s flds (URL w) (map req_path (fetched r'))" .
      then have "page_chain s flds p (p # map req_path (fetched r'))"
        using po None Some by (auto intro: page_chain.next_page)
      then show ?thesis using r'(2) by simp
    qed
  qed
qed

text \<open>
  Claim C5. A page without a continuation descriptor ends the run: its request is the only
  one. A page with one, whatever host records it has, is followed by the requests of one
  run on the descriptor's URL, and by nothing else. So the requests of a run are the chain of
  pages of the service, each posted once, with the fields unchanged: a finite chain makes the
  run return with exactly these requests, and a run that returns has posted a chain.
\<close>

theorem pagination_follows_continuations:
  "(\<forall>pg. post s p flds = (pg, None) \<and> Warning pg = None \<longrightarrow>
      map_option fetched (getHostDetectionPostData_go s merges p flds)
        = Some [\<lparr>req_path = p, req_fields = flds\<rparr>])
   \<and> (\<forall>pg w. post s p flds = (pg, None) \<and> Warning pg = Some w \<longrightarrow>
      map_option fetched (getHostDetectionPostData_go s merges p flds)
        = map_option (\<lambda>reqs. \<lparr>req_path = p, req_fields = flds\<rparr> # reqs)
            (map_option fetched (getHostDetectionPostData_go s (tl merges) (URL w) flds)))
   \<and> (page_chain s flds p ps \<longrightarrow>
        (\<exists>r. getHostDetectionPostData_go s merges p flds = Some r
           \<and> map req_path (fetched r) = ps \<and> (\<forall>q \<in> set (fetched r). req_fields q = flds)))
   \<and> (\<forall>r. getHostDetectionPostData_go s merges p flds = Some r \<longrightarrow>
        page_chain s flds p (map req_path (fetched r)))"
proof -
  have a: "map_option fetched (getHostDetectionPostData_go s merges p flds)
        = Some [\<lparr>req_path = p, req_fields = flds\<rparr>]"
    if "post s p flds = (pg, None)" "Warning pg = None" for pg
    using that by (simp add: go_last)
  have b: "map_option fetched (getHostDetectionPostData_go s merges p flds)
        = map_option (\<lambda>reqs. \<lparr>req_path = p, req_fields = flds\<rparr> # reqs)
            (map_option fetched (getHostDetectionPostData_go s (tl merges) (URL w) flds))"
    if "post s p flds = (pg, None)" "Warning pg = Some w" for pg w
    using that
    by (cases "getHostDetectionPostData_go s (tl merges) (URL w) flds") (simp_all add: go_next)
  show ?thesis
    using a b chain_returns [of s flds p ps merges] returns_chain [of s merges p flds]
    by blast
qed

theorem pagination_follows_continuations_witness:
  "page_chain two_pages Map.empty ''https://qualysapi.example/detection/''
     [''https://qualysapi.example/detection/'', ''https://qualysapi.example/next'']
   \<and> map_option (\<lambda>r. map req_path (fetched r))
        (getHostDetectionPostData_go two_pages [] ''https://qualysapi.example/detection/'' Map.empty)
       = Some [''https://qualysapi.example/detection/'', ''https://qualysapi.example/next'']"
proof -
  have l: "page_chain two_pages Map.empty ''https://qualysapi.example/next''
             [''https://qualysapi.example/next'']"
    by (rule page_chain.last_page [where pg = "\<lparr>Hosts = [example_host], Warning = None\<rparr>"])
       (simp_all add: two_pages_def)
  have c: "page_chain two_pages Map.empty ''https://qualysapi.example/detection/''
     [''https://qualysapi.example/detection/'', ''https://qualysapi.example/next'']"
    by (rule page_chain.next_page
          [where pg = "\<lparr>Hosts = [], Warning = Some \<lparr>URL = ''https://qualysapi.example/next''\<rparr>\<rparr>"
             and w = "\<lparr>URL = ''https://qualysapi.example/next''\<rparr>"])
       (simp_all add: two_pages_def l [unfolded two_pages_def])
  have "page_chain two_pages Map.empty ''https://qualysapi.example/detection/''
          [''https://qualysapi.example/detection/'', ''https://qualysapi.example/next''] \<longrightarrow>
        (\<exists>r. getHostDetectionPostData_go two_pages [] ''https://qualysapi.example/detection/'' Map.empty = Some r
           \<and> map req_path (fetched r) =
               [''https://qualysapi.example/detection/'', ''https://qualysapi.example/next'']
           \<and> (\<forall>q \<in> set (fetched r). req_fields q = Map.empty))"
    using pagination_follows_continuations
         [of two_pages "''https://qualysapi.example/detection/''" Map.empty "[]"
             "[''https://qualysapi.example/detection/'', ''https://qualysapi.example/next'']"]
    by (elim conjE) assumption
  with c obtain r where
    "getHostDetectionPostData_go two_pages [] ''https://qualysapi.example/detection/'' Map.empty = Some r"
    "map req_path (fetched r) = [''https://qualysapi.example/detection/'', ''https://qualysapi.example/next'']"
    by (elim impE exE conjE)
  with c show ?thesis by simp
qed


section \<open>The events of \<open>pushDetectionsOnChannel\<close>\<close>

lemma until_Done_Nil [simp]: "until_Done [] xs = xs"
  by (cases xs) auto

lemma until_Done_length: "length (until_Done ctx xs) \<le> length xs"
  by (induction ctx xs rule: until_Done.induct) auto

lemma until_Done_all: "length (until_Done ctx xs) = length xs \<Longrightarrow> until_Done ctx xs = xs"
  by (induction ctx xs rule: until_Done.induct) (auto split: if_splits)

lemma until_Done_map: "until_Done ctx (map f xs) = map f (until_Done ctx xs)"
  by (induction ctx xs rule: until_Done.induct) auto

lemma until_Done_append:
  "until_Done ctx (xs @ ys) =
     (if length (until_Done ctx xs) < length xs then until_Done ctx xs
      else xs @ until_Done (drop (length xs) ctx) ys)"
proof (induction ctx xs rule: until_Done.induct)
  case (1 ctx)
  then show ?case by simp
next
  case (2 x xs)
  then show ?case by (cases ys) auto
next
  case (3 b bs x xs)
  then show ?case by auto
qed

lemma expand_step:
  "\<lparr>host = h,
    detection =
      (let deadHostProof = (case deadHostIPToProof (IPAddress h) of None \<Rightarrow> [] | Some p \<Rightarrow> p)
       in if length deadHostProof > 0
          then d\<lparr>DetectionStatus := DeadHost dmn, DetectionProof := deadHostProof\<rparr>
          else if DetectionStatus d = ''Fixed'' then d\<lparr>DetectionStatus := Fixed dmn\<rparr>
          else d)\<rparr> = expand dmn deadHostIPToProof h d"
  by (auto simp: expand_def Let_def split: option.splits list.splits)

lemma pushDetections_host_eq:
  "pushDetections_host dmn ctx h ds dead out =
     (length (until_Done ctx ds) < length ds,
      drop (min (Suc (length (until_Done ctx ds))) (length ds)) ctx,
      out @ map (expand dmn dead h) (until_Done ctx ds))"
proof (induction ds arbitrary: ctx out)
  case Nil
  then show ?case by simp
next
  case (Cons d ds)
  show ?case
  proof (cases ctx)
    case Nil
    then show ?thesis
      using Cons.IH [of "[]"] expand_step [where h = h and deadHostIPToProof = dead and d = d and dmn = dmn]
      by (simp add: ctx_Done_def Let_def)
  next
    case (Cons b bs)
    then show ?thesis
      using Cons.IH [of bs] expand_step [where h = h and deadHostIPToProof = dead and d = d and dmn = dmn] until_Done_length [of bs ds]
      by (simp add: ctx_Done_def Let_def min_def)
  qed
qed

lemma pushDetections_hosts_eq:
  "fst (pushDetections_hosts dmn ctx hs dead out)
     = (length (until_Done ctx (expand_all dmn dead hs)) < length (expand_all dmn dead hs))
   \<and> snd (snd (pushDetections_hosts dmn ctx hs dead out))
     = out @ until_Done ctx (expand_all dmn dead hs)"
proof (induction hs arbitrary: ctx out)
  case Nil
  then show ?case by (simp add: expand_all_def)
next
  case (Cons h hs)
  let ?ds = "HostDetections h"
  let ?evs = "map (expand dmn dead h) ?ds"
  have ea: "expand_all dmn dead (h # hs) = ?evs @ expand_all dmn dead hs"
    by (simp add: expand_all_def)
  show ?case
  proof (cases "length (until_Done ctx ?ds) < length ?ds")
    case True
    then show ?thesis
      by (simp add: pushDetections_host_eq ea until_Done_append until_Done_map)
  next
    case False
    then have all: "length (until_Done ctx ?ds) = length ?ds"
      using until_Done_length [of ctx ?ds] by simp
    then have "until_Done ctx ?ds = ?ds" by (rule until_Done_all)
    then show ?thesis
      using False Cons.IH [of "drop (length ?ds) ctx" "out @ ?evs"]
      by (simp add: pushDetections_host_eq ea until_Done_append until_Done_map)
  qed
qed

lemma until_Done_subset: "set (until_Done ctx xs) \<subseteq> set xs"
  by (induction ctx xs rule: until_Done.induct) auto

lemma expand_all_mem:
  "e \<in> set (expand_all dmn dead hs) \<Longrightarrow>
   \<exists>h \<in> set hs. \<exists>d \<in> set (HostDetections h). e = expand dmn dead h d"
  by (auto simp: expand_all_def)

lemma pushDetectionsOnChannel_eq:
  "pushDetectionsOnChannel dmn ctx (Some pg) dead out =
     Inr (length (until_Done ctx (expand_all dmn dead (Hosts pg)))
            < length (expand_all dmn dead (Hosts pg)),
          fst (snd (pushDetections_hosts dmn ctx (Hosts pg) dead out)),
          out @ until_Done ctx (expand_all dmn dead (Hosts pg)))"
  using pushDetections_hosts_eq [of dmn ctx "Hosts pg" dead out]
  by (cases "pushDetections_hosts dmn ctx (Hosts pg) dead out")
     (simp add: pushDetectionsOnChannel_def)

lemma expand_host: "host (expand dmn dead h d) = h"
  by (simp add: expand_def)

lemma expand_dead:
  "dead (IPAddress h) = Some txt0 \<Longrightarrow> txt0 \<noteq> [] \<Longrightarrow>
   detection (expand dmn dead h d) = d\<lparr>DetectionStatus := DeadHost dmn, DetectionProof := txt0\<rparr>"
  by (cases txt0) (simp_all add: expand_def)

lemma expand_alive:
  "dead (IPAddress h) = None \<or> dead (IPAddress h) = Some [] \<Longrightarrow>
   detection (expand dmn dead h d)
     = (if DetectionStatus d = ''Fixed'' then d\<lparr>DetectionStatus := Fixed dmn\<rparr> else d)"
  by (auto simp: expand_def)

text \<open>
  Claim C4, as amended. The events that \<open>pushDetectionsOnChannel\<close> sends are, in order and
  up to the select that takes the cancellation, one for each detection of each host. When
  the dead-host map gives the host's address a proof text that is not empty, the event has
  the status \<open>DeadHost\<close> and that text as its proof, whatever the raw status was; when the
  address is not a key of the map, or is mapped to the empty text, the raw status \<open>Fixed\<close>
  becomes the canonical \<open>Fixed\<close> and any other detection is sent unchanged.
\<close>

theorem pushDetectionsOnChannel_expands:
  assumes "pushDetectionsOnChannel dmn ctx (Some pg) deadHostIPToProof out = Inr (cancelled, ctx', out')"
  shows "out' = out @ until_Done ctx (expand_all dmn deadHostIPToProof (Hosts pg))
    \<and> (\<forall>e \<in> set (until_Done ctx (expand_all dmn deadHostIPToProof (Hosts pg))).
         host e \<in> set (Hosts pg) \<and>
         (\<exists>d \<in> set (HostDetections (host e)).
            (\<forall>txt0. deadHostIPToProof (IPAddress (host e)) = Some txt0 \<and> txt0 \<noteq> [] \<longrightarrow>
               detection e = d\<lparr>DetectionStatus := DeadHost dmn, DetectionProof := txt0\<rparr>)
          \<and> ((deadHostIPToProof (IPAddress (host e)) = None
               \<or> deadHostIPToProof (IPAddress (host e)) = Some [])
              \<and> DetectionStatus d = ''Fixed'' \<longrightarrow>
               detection e = d\<lparr>DetectionStatus := Fixed dmn\<rparr>)
          \<and> ((deadHostIPToProof (IPAddress (host e)) = None
               \<or> deadHostIPToProof (IPAddress (host e)) = Some [])
              \<and> DetectionStatus d \<noteq> ''Fixed'' \<longrightarrow>
               detection e = d)))"
proof (intro conjI ballI)
  show "out' = out @ until_Done ctx (expand_all dmn deadHostIPToProof (Hosts pg))"
    using assms by (simp add: pushDetectionsOnChannel_eq)
next
  fix e
  assume "e \<in> set (until_Done ctx (expand_all dmn deadHostIPToProof (Hosts pg)))"
  then have "e \<in> set (expand_all dmn deadHostIPToProof (Hosts pg))"
    using until_Done_subset [of ctx "expand_all dmn deadHostIPToProof (Hosts pg)"]
    by (rule rev_subsetD)
  from expand_all_mem [OF this]
  obtain h d where hd: "h \<in> set (Hosts pg)" "d \<in> set (HostDetections h)"
      "e = expand dmn deadHostIPToProof h d"
    by (elim bexE)
  have he: "host e = h" by (simp add: hd(3) expand_host)
  from hd(1) he show "host e \<in> set (Hosts pg)" by simp
  have a: "detection e = d\<lparr>DetectionStatus := DeadHost dmn, DetectionProof := txt0\<rparr>"
    if "deadHostIPToProof (IPAddress (host e)) = Some txt0 \<and> txt0 \<noteq> []" for txt0
  proof -
    from that he have "deadHostIPToProof (IPAddress h) = Some txt0" "txt0 \<noteq> []" by simp_all
    then show ?thesis unfolding hd(3) by (rule expand_dead)
  qed
  have b: "detection e = (if DetectionStatus d = ''Fixed'' then d\<lparr>DetectionStatus := Fixed dmn\<rparr> else d)"
    if "deadHostIPToProof (IPAddress (host e)) = None
          \<or> deadHostIPToProof (IPAddress (host e)) = Some []"
  proof -
    from that he have "deadHostIPToProof (IPAddress h) = None
          \<or> deadHostIPToProof (IPAddress h) = Some []" by simp
    then show ?thesis unfolding hd(3) by (rule expand_alive)
  qed
  have b1: "detection e = d\<lparr>DetectionStatus := Fixed dmn\<rparr>"
    if "(deadHostIPToProof (IPAddress (host e)) = None
          \<or> deadHostIPToProof (IPAddress (host e)) = Some []) \<and> DetectionStatus d = ''Fixed''"
    using that b by simp
  have b2: "detection e = d"
    if "(deadHostIPToProof (IPAddress (host e)) = None
          \<or> deadHostIPToProof (IPAddress (host e)) = Some []) \<and> DetectionStatus d \<noteq> ''Fixed''"
    using that b by simp
  have dm: "d \<in> set (HostDetections (host e))" using hd(2) he by simp
  show "\<exists>d \<in> set (HostDetections (host e)).
            (\<forall>txt0. deadHostIPToProof (IPAddress (host e)) = Some txt0 \<and> txt0 \<noteq> [] \<longrightarrow>
               detection e = d\<lparr>DetectionStatus := DeadHost dmn, DetectionProof := txt0\<rparr>)
          \<and> ((deadHostIPToProof (IPAddress (host e)) = None
               \<or> deadHostIPToProof (IPAddress (host e)) = Some [])
              \<and> DetectionStatus d = ''Fixed'' \<longrightarrow>
               detection e = d\<lparr>DetectionStatus := Fixed dmn\<rparr>)
          \<and> ((deadHostIPToProof (IPAddress (host e)) = None
               \<or> deadHostIPToProof (IPAddress (host e)) = Some [])
              \<and> DetectionStatus d \<noteq> ''Fixed'' \<longrightarrow>
               detection e = d)"
  proof (rule bexI [OF _ dm], intro conjI allI impI)
    fix txt0
    assume "deadHostIPToProof (IPAddress (host e)) = Some txt0 \<and> txt0 \<noteq> []"
    then show "detection e = d\<lparr>DetectionStatus := DeadHost dmn, DetectionProof := txt0\<rparr>"
      by (rule a)
  next
    assume "(deadHostIPToProof (IPAddress (host e)) = None
          \<or> deadHostIPToProof (IPAddress (host e)) = Some []) \<and> DetectionStatus d = ''Fixed''"
    then show "detection e = d\<lparr>DetectionStatus := Fixed dmn\<rparr>" by (rule b1)
  next
    assume "(deadHostIPToProof (IPAddress (host e)) = None
          \<or> deadHostIPToProof (IPAddress (host e)) = Some []) \<and> DetectionStatus d \<noteq> ''Fixed''"
    then show "detection e = d" by (rule b2)
  qed
qed

lemma dead_run:
  "pushDetectionsOnChannel canonical [] (Some \<lparr>Hosts = [example_host], Warning = None\<rparr>)
     [''10.0.0.5'' \<mapsto> ''no reply to ping''] []
   = Inr (False, [],
       [\<lparr>host = example_host,
         detection = \<lparr>QID = 38170, DetectionStatus = ''DeadHost'', DetectionProof = ''no reply to ping''\<rparr>\<rparr>,
        \<lparr>host = example_host,
         detection = \<lparr>QID = 38170, DetectionStatus = ''DeadHost'', DetectionProof = ''no reply to ping''\<rparr>\<rparr>,
        \<lparr>host = example_host,
         detection = \<lparr>QID = 105489, DetectionStatus = ''DeadHost'', DetectionProof = ''no reply to ping''\<rparr>\<rparr>])"
  by (simp add: pushDetectionsOnChannel_def example_host_def ctx_Done_def canonical_def Let_def)

theorem pushDetectionsOnChannel_expands_witness:
  "pushDetectionsOnChannel canonical [] (Some \<lparr>Hosts = [example_host], Warning = None\<rparr>)
     [''10.0.0.5'' \<mapsto> ''no reply to ping''] []
   = Inr (False, [],
       [\<lparr>host = example_host,
         detection = \<lparr>QID = 38170, DetectionStatus = ''DeadHost'', DetectionProof = ''no reply to ping''\<rparr>\<rparr>,
        \<lparr>host = example_host,
         detection = \<lparr>QID = 38170, DetectionStatus = ''DeadHost'', DetectionProof = ''no reply to ping''\<rparr>\<rparr>,
        \<lparr>host = example_host,
         detection = \<lparr>QID = 105489, DetectionStatus = ''DeadHost'', DetectionProof = ''no reply to ping''\<rparr>\<rparr>])
   \<and> until_Done [] (expand_all canonical [''10.0.0.5'' \<mapsto> ''no reply to ping'']
        (Hosts \<lparr>Hosts = [example_host], Warning = None\<rparr>))
     = [\<lparr>host = example_host,
         detection = \<lparr>QID = 38170, DetectionStatus = ''DeadHost'', DetectionProof = ''no reply to ping''\<rparr>\<rparr>,
        \<lparr>host = example_host,
         detection = \<lparr>QID = 38170, DetectionStatus = ''DeadHost'', DetectionProof = ''no reply to ping''\<rparr>\<rparr>,
        \<lparr>host = example_host,
         detection = \<lparr>QID = 105489, DetectionStatus = ''DeadHost'', DetectionProof = ''no reply to ping''\<rparr>\<rparr>]"
proof -
  note h = dead_run
  from pushDetectionsOnChannel_expands [OF h]
  have "[\<lparr>host = example_host,
         detection = \<lparr>QID = 38170, DetectionStatus = ''DeadHost'', DetectionProof = ''no reply to ping''\<rparr>\<rparr>,
        \<lparr>host = example_host,
         detection = \<lparr>QID = 38170, DetectionStatus = ''DeadHost'', DetectionProof = ''no reply to ping''\<rparr>\<rparr>,
        \<lparr>host = example_host,
         detection = \<lparr>QID = 105489, DetectionStatus = ''DeadHost'', DetectionProof = ''no reply to ping''\<rparr>\<rparr>]
      = [] @ until_Done [] (expand_all canonical [''10.0.0.5'' \<mapsto> ''no reply to ping'']
        (Hosts \<lparr>Hosts = [example_host], Warning = None\<rparr>))"
    by (rule conjunct1)
  then have "until_Done [] (expand_all canonical [''10.0.0.5'' \<mapsto> ''no reply to ping'']
        (Hosts \<lparr>Hosts = [example_host], Warning = None\<rparr>))
     = [\<lparr>host = example_host,
         detection = \<lparr>QID = 38170, DetectionStatus = ''DeadHost'', DetectionProof = ''no reply to ping''\<rparr>\<rparr>,
        \<lparr>host = example_host,
         detection = \<lparr>QID = 38170, DetectionStatus = ''DeadHost'', DetectionProof = ''no reply to ping''\<rparr>\<rparr>,
        \<lparr>host = example_host,
         detection = \<lparr>QID = 105489, DetectionStatus = ''DeadHost'', DetectionProof = ''no reply to ping''\<rparr>\<rparr>]"
    unfolding append_Nil by (rule sym)
  with h show ?thesis by (rule conjI)
qed

text \<open>
  The claim as it is written fails for an address that is a key of the map with the empty
  text as its proof: the code tests the length of the text, not the presence of the key, and
  sends the detections with their own statuses.
\<close>

theorem dead_host_empty_proof_counterexample:
  "[''10.0.0.5'' \<mapsto> []] (IPAddress example_host) \<noteq> None
   \<and> pushDetectionsOnChannel canonical [] (Some \<lparr>Hosts = [example_host], Warning = None\<rparr>)
       [''10.0.0.5'' \<mapsto> []] []
     = Inr (False, [],
         [\<lparr>host = example_host,
           detection = \<lparr>QID = 38170, DetectionStatus = ''Active'', DetectionProof = ''port 443''\<rparr>\<rparr>,
          \<lparr>host = example_host,
           detection = \<lparr>QID = 38170, DetectionStatus = ''Active'', DetectionProof = ''port 8443''\<rparr>\<rparr>,
          \<lparr>host = example_host,
           detection = \<lparr>QID = 105489, DetectionStatus = ''Fixed'', DetectionProof = []\<rparr>\<rparr>])
   \<and> DeadHost canonical \<noteq> ''Active''"
  by (simp add: pushDetectionsOnChannel_def example_host_def ctx_Done_def canonical_def Let_def)


section \<open>Cancellation in \<open>Detections\<close>\<close>

lemma dispatch_until_Done: "fst (dispatch ctx hosts) = until_Done ctx hosts"
proof (induction hosts arbitrary: ctx)
  case Nil
  then show ?case by simp
next
  case (Cons h hs)
  from Cons [of "tl ctx"] show ?case
    by (cases ctx) (auto simp: ctx_Done_def split: prod.splits)
qed

lemma Detections_go_requests:
  "map_option requests (Detections_go s sch ctx ids) =
     Option.bind
       (if snd (Detections_partition ids [] []) \<noteq> [] then
          map_option fetched
            (getHostDetectionPostData_go (apiSession s) (group_merges sch)
               (Address (apiSession s) @ qsAssetVMHost (apiSession s))
               (GetHostDetections_fields (snd (Detections_partition ids [] [])) (KernelFilter s)))
        else Some [])
       (\<lambda>reqs1. Option.bind
          (if fst (Detections_partition ids [] []) \<noteq> [] then
             map_option fetched
               (getHostDetectionPostData_go (apiSession s) (tag_merges sch)
                  (Address (apiSession s) @ qsAssetVMHost (apiSession s))
                  (GetTagDetections_fields (fst (Detections_partition ids [] [])) (KernelFilter s)))
           else Some [])
          (\<lambda>reqs2. Some (reqs1 @ reqs2)))"
proof -
  obtain tags groupIDs where part: "Detections_partition ids [] [] = (tags, groupIDs)"
    by (cases "Detections_partition ids [] []")
  let ?g = "getHostDetectionPostData_go (apiSession s) (group_merges sch)
             (Address (apiSession s) @ qsAssetVMHost (apiSession s))
             (GetHostDetections_fields groupIDs (KernelFilter s))"
  let ?t = "getHostDetectionPostData_go (apiSession s) (tag_merges sch)
             (Address (apiSession s) @ qsAssetVMHost (apiSession s))
             (GetTagDetections_fields tags (KernelFilter s))"
  show ?thesis
  proof (cases ?g)
    case gn: None
    show ?thesis
    proof (cases ?t)
      case None
      with gn part show ?thesis
        by (simp add: Detections_go_def Detections_sub_def GetHostDetections_def
            GetTagDetections_def getHostDetectionPostData_def split: prod.splits)
    next
      case (Some rt)
      with gn part show ?thesis
        by (simp add: Detections_go_def Detections_sub_def GetHostDetections_def
            GetTagDetections_def getHostDetectionPostData_def split: prod.splits)
    qed
  next
    case gs: (Some rg)
    show ?thesis
    proof (cases ?t)
      case None
      with gs part show ?thesis
        by (simp add: Detections_go_def Detections_sub_def GetHostDetections_def
            GetTagDetections_def getHostDetectionPostData_def split: prod.splits)
    next
      case (Some rt)
      with gs part show ?thesis
        by (simp add: Detections_go_def Detections_sub_def GetHostDetections_def
            GetTagDetections_def getHostDetectionPostData_def split: prod.splits)
    qed
  qed
qed

lemma two_pages_run:
  "getHostDetectionPostData_go two_pages [] (Address two_pages @ qsAssetVMHost two_pages) flds =
     Some \<lparr>sent = [example_host],
           fetched = [\<lparr>req_path = ''https://qualysapi.example/detection/'', req_fields = flds\<rparr>,
                      \<lparr>req_path = ''https://qualysapi.example/next'', req_fields = flds\<rparr>],
           logged = [], totalHosts_var = 0, err_var = None\<rparr>"
  by (simp add: two_pages_def getHostDetectionPostData_go.simps)

lemma pushCombos_cancelled:
  "out_events (pushCombos h ds (st\<lparr>fan_ctx := True # c\<rparr>)) = out_events st"
proof (induction ds arbitrary: st)
  case Nil
  then show ?case by simp
next
  case (Cons d ds)
  show ?case
  proof (cases "identity_key \<lparr>host = h, detection = d\<rparr> \<in> processedDevVulns st")
    case True
    then show ?thesis using Cons [of st] by (simp add: pushCombo_def)
  next
    case False
    then show ?thesis by (simp add: pushCombo_def ctx_Done_def)
  qed
qed

text \<open>
  Claim C7, as amended. Once a select takes the cancellation case, the loop it belongs to
  goes no further: the dispatch loop of \<open>Detections\<close> has started a unit of work for the hosts
  received before that select and for no other, \<open>pushDetectionsOnChannel\<close> has sent the events
  before it, sends no other and returns true exactly then, and a unit of work whose next
  select takes it emits nothing more. The network requests are not gated by the signal: the
  pagination engine takes no context, and the requests of a \<open>Detections\<close> call (those of the
  group-ID stage, then those of the tag stage, each with all its pages) are the same
  whatever the signal does.
\<close>

theorem cancellation_stops_the_loops:
  "fst (dispatch ctx hosts) = until_Done ctx hosts
   \<and> pushDetectionsOnChannel dmn ctx (Some pg) dead out
       = Inr (length (until_Done ctx (expand_all dmn dead (Hosts pg)))
                < length (expand_all dmn dead (Hosts pg)),
              fst (snd (pushDetections_hosts dmn ctx (Hosts pg) dead out)),
              out @ until_Done ctx (expand_all dmn dead (Hosts pg)))
   \<and> out_events (pushCombos h ds (st\<lparr>fan_ctx := True # c\<rparr>)) = out_events st
   \<and> map_option requests (Detections_go s sch ctx ids)
       = map_option requests (Detections_go s sch ctx2 ids)"
proof (intro conjI)
  show "fst (dispatch ctx hosts) = until_Done ctx hosts"
    by (rule dispatch_until_Done)
  show "pushDetectionsOnChannel dmn ctx (Some pg) dead out
       = Inr (length (until_Done ctx (expand_all dmn dead (Hosts pg)))
                < length (expand_all dmn dead (Hosts pg)),
              fst (snd (pushDetections_hosts dmn ctx (Hosts pg) dead out)),
              out @ until_Done ctx (expand_all dmn dead (Hosts pg)))"
    by (rule pushDetectionsOnChannel_eq)
  show "out_events (pushCombos h ds (st\<lparr>fan_ctx := True # c\<rparr>)) = out_events st"
    by (rule pushCombos_cancelled)
  show "map_option requests (Detections_go s sch ctx ids)
       = map_option requests (Detections_go s sch ctx2 ids)"
    by (simp only: Detections_go_requests)
qed

text \<open>
  The claim as it is written fails when the first select of the group-ID stage takes the
  cancellation: no event is emitted, and the requests of the tag stage are posted all the
  same, as is the second page of either stage.
\<close>

theorem cancelled_group_stage_counterexample:
  "map_option
     (\<lambda>r. (emitted r,
           map (\<lambda>q. (req_path q, req_fields q ''ag_ids'', req_fields q ''tag_set_include''))
             (requests r)))
     (Detections_go \<lparr>apiSession = two_pages, KernelFilter = 0\<rparr> in_order [True, True]
        [''1234'', ''tag-prod''])
   = Some ([], [(''https://qualysapi.example/detection/'', Some ''1234'', None),
               (''https://qualysapi.example/next'', Some ''1234'', None),
               (''https://qualysapi.example/detection/'', None, Some ''prod''),
               (''https://qualysapi.example/next'', None, Some ''prod'')])"
  by (simp add: Detections_go_def Detections_sub_def GetHostDetections_def GetTagDetections_def
      getHostDetectionPostData_def two_pages_run tagPrefix_def in_order_def Detections_stage_def
      ctx_Done_def emitted_def GetHostDetections_fields_def GetTagDetections_fields_def Let_def)


section \<open>Deduplication\<close>

lemma pushCombo_deduplicated:
  "deduplicated st \<Longrightarrow> deduplicated (snd (pushCombo h d st))"
  by (auto simp: deduplicated_def pushCombo_def Let_def identity_key_def)

lemma pushCombos_deduplicated:
  "deduplicated st \<Longrightarrow> deduplicated (pushCombos h ds st)"
proof (induction ds arbitrary: st)
  case Nil
  then show ?case by simp
next
  case (Cons d ds)
  from Cons.prems have "deduplicated (snd (pushCombo h d st))"
    by (rule pushCombo_deduplicated)
  then show ?case
    using Cons.IH by (cases "pushCombo h d st") (auto split: bool.splits)
qed

lemma fold_deduplicated:
  "deduplicated st \<Longrightarrow> deduplicated (fold (\<lambda>(h, ds). pushCombos h ds) units st)"
  by (induction units arbitrary: st) (auto simp: pushCombos_deduplicated)

lemma run_units_deduplicated:
  "deduplicated st \<Longrightarrow> deduplicated (run_units picks units st)"
proof (induction picks arbitrary: units st)
  case Nil
  then show ?case by (simp add: fold_deduplicated)
next
  case (Cons i picks)
  show ?case
  proof (cases "i < length units")
    case False
    then show ?thesis using Cons by simp
  next
    case True
    obtain h ds where u: "units ! i = (h, ds)" by (cases "units ! i")
    show ?thesis
    proof (cases ds)
      case Nil
      then show ?thesis using True u Cons by simp
    next
      case (Cons d ds')
      obtain b st' where p: "pushCombo h d st = (b, st')" by (cases "pushCombo h d st")
      have "deduplicated st'"
        using pushCombo_deduplicated [OF Cons.prems, of h d] p by simp
      then show ?thesis
        using True u Cons p Cons.IH by (cases b) simp_all
    qed
  qed
qed

lemma Detections_stage_distinct:
  "distinct (map identity_key (fst (Detections_stage ctx picks hosts)))"
proof -
  obtain started ctx' where d: "dispatch ctx hosts = (started, ctx')"
    by (cases "dispatch ctx hosts")
  have "deduplicated \<lparr>processedDevVulns = {}, out_events = [], fan_ctx = ctx'\<rparr>"
    by (simp add: deduplicated_def)
  then have "deduplicated (run_units picks (map (\<lambda>h. (h, HostDetections h)) started)
                 \<lparr>processedDevVulns = {}, out_events = [], fan_ctx = ctx'\<rparr>)"
    by (rule run_units_deduplicated)
  then show ?thesis
    using d by (simp add: Detections_stage_def deduplicated_def Let_def)
qed

lemma Detections_sub_distinct:
  "Detections_sub fetch ctx picks = Some (evs, reqs, ctx') \<Longrightarrow> distinct (map identity_key evs)"
proof -
  assume a: "Detections_sub fetch ctx picks = Some (evs, reqs, ctx')"
  obtain hosts eo where f: "fetch = (hosts, eo)" by (cases fetch)
  show ?thesis
  proof (cases eo)
    case (Some e)
    with a f show ?thesis by (simp add: Detections_sub_def)
  next
    case None
    with a f obtain r :: run where "Detections_stage ctx picks (sent r) = (evs, ctx')"
      by (cases "Option.bind hosts (\<lambda>r. r)")
         (auto simp: Detections_sub_def split: prod.splits)
    then have "evs = fst (Detections_stage ctx picks (sent r))" by simp
    then show ?thesis by (simp add: Detections_stage_distinct)
  qed
qed

lemma Detections_go_distinct:
  assumes "Detections_go s sch ctx ids = Some r"
  shows "distinct (map identity_key (group_events r)) \<and> distinct (map identity_key (tag_events r))"
proof -
  obtain tags groupIDs where part: "Detections_partition ids [] [] = (tags, groupIDs)"
    by (cases "Detections_partition ids [] []")
  let ?G = "if length groupIDs > 0 then
              Detections_sub
                (GetHostDetections (apiSession s) (group_merges sch) groupIDs (KernelFilter s))
                ctx (group_picks sch)
            else Some ([], [], ctx)"
  let ?T = "\<lambda>ctx1. if length tags > 0 then
                   Detections_sub
                     (GetTagDetections (apiSession s) (tag_merges sch) tags (KernelFilter s))
                     ctx1 (tag_picks sch)
                 else Some ([], [], ctx1)"
  from assms part obtain evs1 reqs1 ctx1 evs2 reqs2 ctx2 where
    g: "?G = Some (evs1, reqs1, ctx1)" and t: "?T ctx1 = Some (evs2, reqs2, ctx2)"
    and r: "r = \<lparr>group_events = evs1, tag_events = evs2, requests = reqs1 @ reqs2\<rparr>"
    by (auto simp: Detections_go_def bind_eq_Some_conv)
  have "distinct (map identity_key evs1)"
    using g Detections_sub_distinct by (auto split: if_splits)
  moreover have "distinct (map identity_key evs2)"
    using t Detections_sub_distinct by (auto split: if_splits)
  ultimately show ?thesis using r by simp
qed

lemma expand_key: "identity_key (expand dmn dead h d) = (HostID h, QID d)"
  by (auto simp: expand_def identity_key_def split: option.splits list.splits)

lemma expand_all_keys:
  "map identity_key (expand_all dmn dead hs)
     = concat (map (\<lambda>h. map (\<lambda>d. (HostID h, QID d)) (HostDetections h)) hs)"
  by (induction hs) (simp_all add: expand_all_def expand_key)

text \<open>
  Claim C1, as amended. Within each sub-pipeline of a \<open>Detections\<close> call, the one driven by
  group IDs and the one driven by tags, no two emitted events have the same identity key,
  whatever the order of the pages, the interleaving of the units of work and the
  cancellation; the stream of the call is the events of the first followed by those of the
  second, each with a seen-set of its own, so that a key can occur once for each.
  \<open>pushDetectionsOnChannel\<close> has no seen-set: its events have the keys of the detections of
  the hosts one by one, repeated as often as the service repeats them.
\<close>

theorem deduplication_per_sub_pipeline:
  assumes "Detections_go s sch ctx ids = Some r"
  shows "distinct (map identity_key (group_events r))
    \<and> distinct (map identity_key (tag_events r))
    \<and> emitted r = group_events r @ tag_events r
    \<and> (\<forall>dmn c pg dead. \<exists>cancelled c' out'.
          pushDetectionsOnChannel dmn c (Some pg) dead [] = Inr (cancelled, c', out')
          \<and> map identity_key out'
              = until_Done c (concat (map (\<lambda>h. map (\<lambda>d. (HostID h, QID d)) (HostDetections h))
                                        (Hosts pg))))"
proof (intro conjI allI)
  from Detections_go_distinct [OF assms]
  show "distinct (map identity_key (group_events r))"
    and "distinct (map identity_key (tag_events r))" by simp_all
  show "emitted r = group_events r @ tag_events r" by (simp add: emitted_def)
  fix dmn c pg dead
  show "\<exists>cancelled c' out'.
          pushDetectionsOnChannel dmn c (Some pg) dead [] = Inr (cancelled, c', out')
          \<and> map identity_key out'
              = until_Done c (concat (map (\<lambda>h. map (\<lambda>d. (HostID h, QID d)) (HostDetections h))
                                        (Hosts pg)))"
    by (simp add: pushDetectionsOnChannel_eq until_Done_map [symmetric] expand_all_keys)
qed

lemma both_stages:
  "map_option (\<lambda>r. (map identity_key (group_events r), map identity_key (tag_events r)))
     (Detections_go \<lparr>apiSession = two_pages, KernelFilter = 0\<rparr> in_order []
        [''1234'', ''tag-prod''])
   = Some ([(101, 38170), (101, 105489)], [(101, 38170), (101, 105489)])"
  by (simp add: Detections_go_def Detections_sub_def GetHostDetections_def GetTagDetections_def
      getHostDetectionPostData_def two_pages_run tagPrefix_def in_order_def Detections_stage_def
      ctx_Done_def example_host_def pushCombo_def identity_key_def Let_def)

theorem deduplication_per_sub_pipeline_witness:
  "map_option
     (\<lambda>r. (map identity_key (group_events r), distinct (map identity_key (group_events r)),
           map identity_key (tag_events r), distinct (map identity_key (tag_events r))))
     (Detections_go \<lparr>apiSession = two_pages, KernelFilter = 0\<rparr> in_order []
        [''1234'', ''tag-prod''])
   = Some ([(101, 38170), (101, 105489)], True, [(101, 38170), (101, 105489)], True)"
proof (cases "Detections_go \<lparr>apiSession = two_pages, KernelFilter = 0\<rparr> in_order []
          [''1234'', ''tag-prod'']")
  case None
  with both_stages show ?thesis by simp
next
  case (Some r)
  from deduplication_per_sub_pipeline [OF Some]
  have g: "distinct (map identity_key (group_events r))" by (rule conjunct1)
  from deduplication_per_sub_pipeline [OF Some]
  have "distinct (map identity_key (tag_events r))
    \<and> emitted r = group_events r @ tag_events r
    \<and> (\<forall>dmn c pg dead. \<exists>cancelled c' out'.
          pushDetectionsOnChannel dmn c (Some pg) dead [] = Inr (cancelled, c', out')
          \<and> map identity_key out'
              = until_Done c (concat (map (\<lambda>h. map (\<lambda>d. (HostID h, QID d)) (HostDetections h))
                                        (Hosts pg))))"
    by (rule conjunct2)
  then have t: "distinct (map identity_key (tag_events r))" by (rule conjunct1)
  from both_stages Some g t show ?thesis by simp
qed

text \<open>
  The claim as it is written fails on both paths: \<open>pushDetectionsOnChannel\<close> sends two events
  for a vulnerability that a host reports on two ports, and a host selected by a group and by
  a tag is emitted by \<open>Detections\<close> once in either stage.
\<close>

theorem same_key_twice_counterexample:
  "(case pushDetectionsOnChannel canonical []
           (Some \<lparr>Hosts = [example_host], Warning = None\<rparr>) Map.empty [] of
      Inl p \<Rightarrow> None
    | Inr (cancelled, c, evs) \<Rightarrow> Some (map identity_key evs))
     = Some [(101, 38170), (101, 38170), (101, 105489)]
   \<and> \<not> distinct [(101, 38170), (101, 38170), (101, 105489 :: int)]
   \<and> map_option (\<lambda>r. map identity_key (emitted r))
        (Detections_go \<lparr>apiSession = two_pages, KernelFilter = 0\<rparr> in_order []
           [''1234'', ''tag-prod''])
     = Some [(101, 38170), (101, 105489), (101, 38170), (101, 105489)]
   \<and> \<not> distinct [(101, 38170), (101, 105489), (101, 38170), (101, 105489 :: int)]"
proof (intro conjI)
  show "(case pushDetectionsOnChannel canonical []
           (Some \<lparr>Hosts = [example_host], Warning = None\<rparr>) Map.empty [] of
      Inl p \<Rightarrow> None
    | Inr (cancelled, c, evs) \<Rightarrow> Some (map identity_key evs))
     = Some [(101, 38170), (101, 38170), (101, 105489)]"
    by (simp add: pushDetectionsOnChannel_def example_host_def ctx_Done_def canonical_def
        identity_key_def Let_def)
  show "map_option (\<lambda>r. map identity_key (emitted r))
        (Detections_go \<lparr>apiSession = two_pages, KernelFilter = 0\<rparr> in_order []
           [''1234'', ''tag-prod''])
     = Some [(101, 38170), (101, 105489), (101, 38170), (101, 105489)]"
    by (simp add: Detections_go_def Detections_sub_def GetHostDetections_def GetTagDetections_def
      getHostDetectionPostData_def two_pages_run tagPrefix_def in_order_def Detections_stage_def
      ctx_Done_def emitted_def example_host_def pushCombo_def identity_key_def Let_def)
  show "\<not> distinct [(101, 38170), (101, 38170), (101, 105489 :: int)]" by simp
  show "\<not> distinct [(101, 38170), (101, 105489), (101, 38170), (101, 105489 :: int)]" by simp
qed

end
